theory Spec2Isabelle
  imports Main "HOL-Library.Char_ord" "HOL-Library.List_Lexorder" "HOL-Library.Multiset"
begin

section \<open>Statement parsing: \<^verbatim>\<open>extract_transactions_from_pdf\<close> of amex_parse_pdf.py\<close>

text \<open>
  The function reads the text of every page of every PDF of a folder, rebuilds
  transactions line by line and writes a sorted table. The PDF reader, the directory
  listing and the CSV writer are outside the model: the input is the list of files in
  listing order, each with the texts of its pages, and the output is the list of rows
  of the table that is written.

  Python's \<^verbatim>\<open>str\<close> is a sequence of code points; here a text is a \<^typ>\<open>string\<close>, so
  the model covers texts whose code points are below 256. On these the classes of the
  regular expressions and of \<^verbatim>\<open>str.strip\<close>, \<^verbatim>\<open>str.split\<close>
  and \<^verbatim>\<open>str.splitlines\<close> are the ones written out below.
\<close>

subsection \<open>Character classes and string primitives\<close>

text \<open>\<^verbatim>\<open>\d\<close> of the regular expressions.\<close>

definition is_digit :: "char \<Rightarrow> bool" where
  "is_digit c = (c \<in> set ''0123456789'')"

text \<open>White space of \<^verbatim>\<open>str.strip()\<close>, \<^verbatim>\<open>str.split()\<close> and \<^verbatim>\<open>\s\<close>.\<close>

definition is_space :: "char \<Rightarrow> bool" where
  "is_space c = (c \<in> set [CHR 0x09, CHR 0x0A, CHR 0x0B, CHR 0x0C, CHR 0x0D,
                            CHR 0x1C, CHR 0x1D, CHR 0x1E, CHR 0x1F, CHR 0x20,
                            CHR 0x85, CHR 0xA0])"

text \<open>Line boundaries of \<^verbatim>\<open>str.splitlines()\<close>.\<close>

definition is_linebreak :: "char \<Rightarrow> bool" where
  "is_linebreak c = (c \<in> set [CHR 0x0A, CHR 0x0B, CHR 0x0C, CHR 0x0D,
                                CHR 0x1C, CHR 0x1D, CHR 0x1E, CHR 0x85])"

text \<open>\<^verbatim>\<open>s.strip()\<close>\<close>

definition strip :: "string \<Rightarrow> string" where
  "strip s = rev (dropWhile is_space (rev (dropWhile is_space s)))"

text \<open>\<^verbatim>\<open>s.splitlines()\<close>: \<^verbatim>\<open>\r\n\<close> is one boundary, and a final boundary opens no
  further line.\<close>

fun splitlines :: "string \<Rightarrow> string list" where
  "splitlines [] = []"
| "splitlines (c # cs) =
     (if is_linebreak c then
        [] # (case cs of
                [] \<Rightarrow> splitlines cs
              | d # ds \<Rightarrow> if c = CHR 0x0D \<and> d = CHR 0x0A then splitlines ds
                          else splitlines cs)
      else (case splitlines cs of
              [] \<Rightarrow> [[c]]
            | l # ls \<Rightarrow> (c # l) # ls))"

text \<open>\<^verbatim>\<open>s.startswith(p)\<close>\<close>

fun starts_with :: "string \<Rightarrow> string \<Rightarrow> bool" where
  "starts_with s [] = True"
| "starts_with [] (p # ps) = False"
| "starts_with (c # cs) (p # ps) = (c = p \<and> starts_with cs ps)"

text \<open>\<^verbatim>\<open>sub in s\<close>\<close>

fun str_contains :: "string \<Rightarrow> string \<Rightarrow> bool" where
  "str_contains sub [] = (sub = [])"
| "str_contains sub (c # cs) = (starts_with (c # cs) sub \<or> str_contains sub cs)"

text \<open>\<^verbatim>\<open>s.split(sep)\<close> for a separator that is not empty.\<close>

fun split_str :: "string \<Rightarrow> string \<Rightarrow> string list" where
  "split_str sep [] = [[]]"
| "split_str sep (c # cs) =
     (if starts_with (c # cs) sep then [] # split_str sep (drop (length sep - 1) cs)
      else (case split_str sep cs of
              [] \<Rightarrow> [[c]]
            | p # ps \<Rightarrow> (c # p) # ps))"

text \<open>\<^verbatim>\<open>s.split()\<close>: the maximal runs of characters that are not white space.\<close>

fun split_ws :: "string \<Rightarrow> string list" where
  "split_ws [] = []"
| "split_ws (c # cs) =
     (if is_space c then split_ws cs
      else (case cs of
              [] \<Rightarrow> [[c]]
            | d # ds \<Rightarrow> if is_space d then [c] # split_ws cs
                        else (case split_ws cs of
                                [] \<Rightarrow> [[c]]
                              | w # ws \<Rightarrow> (c # w) # ws)))"

text \<open>\<^verbatim>\<open>sep.join(xs)\<close>\<close>

fun join :: "string \<Rightarrow> string list \<Rightarrow> string" where
  "join sep [] = []"
| "join sep [x] = x"
| "join sep (x # y # ys) = x @ sep @ join sep (y # ys)"

subsection \<open>The patterns\<close>

text \<open>
  \<^verbatim>\<open>re.match(r"(^\d{2}/\d{2}/\d{4})\s*(.*)", line)\<close>: the two groups, when the line
  starts with a date. \<^verbatim>\<open>.\<close> matches every character but the newline.
\<close>

definition date_pattern :: "string \<Rightarrow> bool" where
  "date_pattern s =
     (case s of
        a # b # s1 # c # d # s2 # e # f # g # h # _ \<Rightarrow>
          is_digit a \<and> is_digit b \<and> s1 = CHR ''/'' \<and> is_digit c \<and> is_digit d \<and>
          s2 = CHR ''/'' \<and> is_digit e \<and> is_digit f \<and> is_digit g \<and> is_digit h
      | _ \<Rightarrow> False)"

definition date_match :: "string \<Rightarrow> (string \<times> string) option" where
  "date_match line =
     (if date_pattern line
      then Some (take 10 line,
                 takeWhile (\<lambda>c. c \<noteq> CHR 0x0A) (dropWhile is_space (drop 10 line)))
      else None)"

text \<open>
  \<^verbatim>\<open>amount_pattern = r'\(?\$[\d,]+\.\d{2}\)?'\<close>: the length of the match that starts
  at the head of the text, if there is one. The run \<^verbatim>\<open>[\d,]+\<close> is greedy, and a
  shorter run is followed by a digit or a comma, never by the point, so only the
  longest run can match. The optional opening parenthesis is tried first; without it
  the match has to start at the dollar sign.
\<close>

definition amount_body :: "string \<Rightarrow> nat option" where
  "amount_body s =
     (case s of
        [] \<Rightarrow> None
      | c # r \<Rightarrow>
          if c \<noteq> CHR ''$'' then None
          else (let run = takeWhile (\<lambda>x. is_digit x \<or> x = CHR '','') r in
                if run = [] then None
                else (case dropWhile (\<lambda>x. is_digit x \<or> x = CHR '','') r of
                        p # a # b # r' \<Rightarrow>
                          if p = CHR ''.'' \<and> is_digit a \<and> is_digit b
                          then Some (length run + 4 +
                                     (case r' of
                                        [] \<Rightarrow> 0
                                      | e # _ \<Rightarrow> if e = CHR '')'' then 1 else 0))
                          else None
                      | _ \<Rightarrow> None)))"

definition amount_pattern :: "string \<Rightarrow> nat option" where
  "amount_pattern s =
     (case s of
        [] \<Rightarrow> None
      | c # r \<Rightarrow>
          if c = CHR ''(''
          then (case amount_body r of
                  Some n \<Rightarrow> Some (Suc n)
                | None \<Rightarrow> amount_body s)
          else amount_body s)"

text \<open>
  \<^verbatim>\<open>re.findall(amount_pattern, s)\<close>: the matches from left to right, the search
  going on behind each match. A match has at least five characters, so the text left
  after a match of length \<open>n\<close> at \<open>c # cs\<close> is \<open>drop (n - 1) cs\<close>.
\<close>

fun findall_amount :: "string \<Rightarrow> string list" where
  "findall_amount [] = []"
| "findall_amount (c # cs) =
     (case amount_pattern (c # cs) of
        Some n \<Rightarrow> take n (c # cs) # findall_amount (drop (n - 1) cs)
      | None \<Rightarrow> findall_amount cs)"

text \<open>\<^verbatim>\<open>re.sub(amount_pattern, '', s)\<close>\<close>

fun sub_amount :: "string \<Rightarrow> string" where
  "sub_amount [] = []"
| "sub_amount (c # cs) =
     (case amount_pattern (c # cs) of
        Some n \<Rightarrow> sub_amount (drop (n - 1) cs)
      | None \<Rightarrow> c # sub_amount cs)"

text \<open>
  The exclusion patterns are plain words, joined into one alternation and searched
  without regard to case: a text matches when it contains one of them. Below code
  point 256 only the letters A to Z have a lower-case form among the letters of the
  patterns.
\<close>

definition exclude_patterns :: "string list" where
  "exclude_patterns =
     [''Beginning Balance'', ''Ending Balance'', ''Important Notice'',
      ''Member FDIC'', ''Direct inquiries'', ''Accounts offered by'']"

definition lower :: "char \<Rightarrow> char" where
  "lower c =
     (case map_of (zip ''ABCDEFGHIJKLMNOPQRSTUVWXYZ'' ''abcdefghijklmnopqrstuvwxyz'') c of
        Some l \<Rightarrow> l
      | None \<Rightarrow> c)"

definition exclude_regex :: "string \<Rightarrow> bool" where
  "exclude_regex s =
     list_ex (\<lambda>p. str_contains (map lower p) (map lower s)) exclude_patterns"

text \<open>The test for a header line: one of the column titles occurs in the line.\<close>

definition is_header :: "string \<Rightarrow> bool" where
  "is_header line =
     list_ex (\<lambda>header. str_contains header line)
       [''Date'', ''Description'', ''Credits'', ''Debits'', ''Balance'']"

subsection \<open>The transaction being built and the rows collected\<close>

record current_transaction =
  date :: "string option"
  description :: "string list"
  credits :: "string option"
  debits :: "string option"
  balance :: "string option"

text \<open>A row of \<^verbatim>\<open>transaction_data\<close>, under the column names of the data frame.\<close>

record row =
  Date :: string
  Description :: string
  Credits :: "string option"
  Debits :: "string option"
  Balance :: "string option"

definition empty_transaction :: current_transaction where
  "empty_transaction =
     \<lparr>date = None, description = [], credits = None, debits = None, balance = None\<rparr>"

text \<open>Truth value of an optional string: \<^verbatim>\<open>None\<close> and the empty string are false.\<close>

definition truthy :: "string option \<Rightarrow> bool" where
  "truthy v = (case v of None \<Rightarrow> False | Some s \<Rightarrow> s \<noteq> [])"

text \<open>The body of \<^verbatim>\<open>for amount in reversed(amounts)\<close>, and the loop.\<close>

definition classify_amount :: "current_transaction \<Rightarrow> string \<Rightarrow> current_transaction" where
  "classify_amount t amount =
     (if balance t = None then t\<lparr>balance := Some amount\<rparr>
      else if CHR ''('' \<in> set amount then t\<lparr>debits := Some amount\<rparr>
      else t\<lparr>credits := Some amount\<rparr>)"

definition classify_amounts :: "string list \<Rightarrow> current_transaction \<Rightarrow> current_transaction" where
  "classify_amounts amounts t = foldl classify_amount t (rev amounts)"

text \<open>The condition under which the transaction being built is saved.\<close>

definition has_content :: "current_transaction \<Rightarrow> bool" where
  "has_content t =
     (truthy (date t) \<and> (description t \<noteq> [] \<or> truthy (credits t) \<or> truthy (debits t)))"

definition row_of :: "current_transaction \<Rightarrow> row" where
  "row_of t =
     \<lparr>Date = (case date t of None \<Rightarrow> [] | Some d \<Rightarrow> d),
      Description = strip (join '' '' (description t)),
      Credits = credits t, Debits = debits t, Balance = balance t\<rparr>"

text \<open>Saving the previous transaction when a date line is met.\<close>

definition save_previous :: "current_transaction \<Rightarrow> row list \<Rightarrow> row list" where
  "save_previous t transaction_data =
     (if has_content t then transaction_data @ [row_of t] else transaction_data)"

text \<open>Saving the last transaction of a page.\<close>

definition save_last :: "current_transaction \<Rightarrow> row list \<Rightarrow> row list" where
  "save_last t transaction_data =
     (if has_content t \<and> \<not> exclude_regex (strip (join '' '' (description t)))
      then transaction_data @ [row_of t] else transaction_data)"

text \<open>\<^verbatim>\<open>s.split("Important Notice")[0]\<close>: the text before the first notice marker. The
  list of pieces is never empty.\<close>

definition before_notice :: "string \<Rightarrow> string" where
  "before_notice s = (case split_str ''Important Notice'' s of [] \<Rightarrow> [] | p # _ \<Rightarrow> p)"

text \<open>The new transaction of a date line, with the rest of the line as description.\<close>

definition start_transaction :: "string \<Rightarrow> string \<Rightarrow> current_transaction" where
  "start_transaction d rest =
     (let desc_part = strip rest;
          desc_part' = (if desc_part \<noteq> [] \<and> str_contains ''Important Notice'' desc_part
                        then strip (before_notice desc_part) else desc_part)
      in \<lparr>date = Some d,
          description = (if desc_part' \<noteq> [] then [desc_part'] else []),
          credits = None, debits = None, balance = None\<rparr>)"

text \<open>The line after a date line, when it holds amounts.\<close>

definition lookahead :: "string \<Rightarrow> current_transaction \<Rightarrow> current_transaction" where
  "lookahead next_line t =
     (let amounts = findall_amount next_line;
          desc_text = strip (sub_amount next_line);
          t' = (if desc_text \<noteq> [] then t\<lparr>description := description t @ [desc_text]\<rparr> else t)
      in classify_amounts amounts t')"

text \<open>A line that is neither a header nor a date line.\<close>

definition continuation :: "string \<Rightarrow> current_transaction \<Rightarrow> current_transaction" where
  "continuation line t =
     (let amounts = findall_amount line in
      if amounts \<noteq> [] then
        (let desc_text = strip (sub_amount line);
             desc_text' = (if str_contains ''Important Notice'' desc_text
                           then strip (before_notice desc_text) else desc_text);
             t' = (if desc_text' \<noteq> [] then t\<lparr>description := description t @ [desc_text']\<rparr>
                   else t)
         in classify_amounts amounts t')
      else t\<lparr>description := description t @ [line]\<rparr>)"

subsection \<open>The loop over the lines of a page\<close>

function seg_loop ::
  "string list \<Rightarrow> nat \<Rightarrow> current_transaction \<Rightarrow> row list \<Rightarrow> current_transaction \<times> row list"
where
  "seg_loop lines i t transaction_data =
     (if i < length lines then
        (if is_header (strip (lines ! i)) then seg_loop lines (i + 1) t transaction_data
         else (case date_match (strip (lines ! i)) of
                 Some (d, rest) \<Rightarrow>
                   (if i + 1 < length lines \<and> findall_amount (strip (lines ! (i + 1))) \<noteq> []
                    then seg_loop lines (i + 2)
                           (lookahead (strip (lines ! (i + 1))) (start_transaction d rest))
                           (save_previous t transaction_data)
                    else seg_loop lines (i + 1) (start_transaction d rest)
                           (save_previous t transaction_data))
               | None \<Rightarrow>
                   seg_loop lines (i + 1) (continuation (strip (lines ! i)) t)
                     transaction_data))
      else (t, transaction_data))"
  by pat_completeness auto
termination
  by (relation "measure (\<lambda>(lines, i, t, transaction_data). length lines - i)") auto

text \<open>The lines of a page: the text before the notice, stripped lines that are not
  empty, without the lines that match an exclusion pattern.\<close>

definition page_lines :: "string \<Rightarrow> string list" where
  "page_lines content =
     (let content' = (if str_contains ''Important Notice'' content
                      then before_notice content else content)
      in filter (\<lambda>line. \<not> exclude_regex line)
           (filter (\<lambda>line. line \<noteq> []) (map strip (splitlines content'))))"

definition process_page :: "string \<Rightarrow> row list \<Rightarrow> row list" where
  "process_page content transaction_data =
     (case seg_loop (page_lines content) 0 empty_transaction transaction_data of
        (t, transaction_data') \<Rightarrow> save_last t transaction_data')"

text \<open>The pages of a file, and the files of the folder whose names end in \<^verbatim>\<open>.pdf\<close>.\<close>

definition process_file :: "string list \<Rightarrow> row list \<Rightarrow> row list" where
  "process_file pages transaction_data =
     foldl (\<lambda>data content. process_page content data) transaction_data pages"

definition ends_with :: "string \<Rightarrow> string \<Rightarrow> bool" where
  "ends_with s suffix = starts_with (rev s) (rev suffix)"

definition process_folder :: "(string \<times> string list) list \<Rightarrow> row list" where
  "process_folder files =
     foldl (\<lambda>data (file_name, pages).
              if ends_with file_name ''.pdf'' then process_file pages data else data)
       [] files"

subsection \<open>The table\<close>

text \<open>
  The steps on the data frame: the rows whose description matches an exclusion pattern
  are removed, white space in the description is normalised, amounts left in the
  description are removed, missing amounts become the empty string, and the rows are
  sorted by the date column, compared as strings. The sort of the library is not
  stable, and the order it gives to rows with equal dates is not fixed by its contract;
  the model takes the insertion sort of the theory of lists, which keeps such rows in
  the order of the input. Whatever order the library chooses, the column of dates and
  the rows as a multiset are those of the model, and a table whose dates all differ is
  the model's table (see the lemmas on rows with equal dates).
\<close>

definition clean_description :: "string \<Rightarrow> string" where
  "clean_description x = strip (sub_amount (join '' '' (split_ws x)))"

definition fillna :: "string option \<Rightarrow> string" where
  "fillna v = (case v of None \<Rightarrow> [] | Some s \<Rightarrow> s)"

type_synonym table_row = "string \<times> string \<times> string \<times> string \<times> string"

definition table_row_of :: "row \<Rightarrow> table_row" where
  "table_row_of r =
     (Date r, clean_description (Description r),
      fillna (Credits r), fillna (Debits r), fillna (Balance r))"

definition data_frame :: "row list \<Rightarrow> table_row list" where
  "data_frame transaction_data =
     sort_key fst
       (map table_row_of (filter (\<lambda>r. \<not> exclude_regex (Description r)) transaction_data))"

definition extract_transactions_from_pdf :: "(string \<times> string list) list \<Rightarrow> table_row list" where
  "extract_transactions_from_pdf files = data_frame (process_folder files)"

subsection \<open>Notions used in the statements\<close>

text \<open>A line that the loop takes as the start of a transaction, unless it is skipped as a
  header: after stripping it matches the date pattern.\<close>

definition date_prefixed :: "string \<Rightarrow> bool" where
  "date_prefixed line = date_pattern (strip line)"

text \<open>
  The pieces of a text between the matches of the amount pattern, as
  \<^verbatim>\<open>re.split(amount_pattern, s)\<close> gives them, and the text rebuilt from pieces and
  matches in turn. They say what the removal of the amounts leaves.
\<close>

fun split_amount :: "string \<Rightarrow> string list" where
  "split_amount [] = [[]]"
| "split_amount (c # cs) =
     (case amount_pattern (c # cs) of
        Some n \<Rightarrow> [] # split_amount (drop (n - 1) cs)
      | None \<Rightarrow> (case split_amount cs of
                   [] \<Rightarrow> [[c]]
                 | g # gs \<Rightarrow> (c # g) # gs))"

fun interleave :: "string list \<Rightarrow> string list \<Rightarrow> string" where
  "interleave (g # gs) (a # as) = g @ a @ interleave gs as"
| "interleave gs [] = concat gs"
| "interleave [] as = concat as"

text \<open>
  What the loop does to the transaction in hand over lines that are not date-prefixed:
  a header line is skipped, any other line is a continuation line. And the transaction
  of a date line with date \<open>d\<close> and rest \<open>rest\<close> once the lines \<open>post\<close> after it, none
  of them date-prefixed, are through: the first of them is taken by the lookahead when
  it holds amounts.
\<close>

fun continue_lines :: "string list \<Rightarrow> current_transaction \<Rightarrow> current_transaction" where
  "continue_lines [] t = t"
| "continue_lines (l # ls) t =
     continue_lines ls (if is_header (strip l) then t else continuation (strip l) t)"

definition open_transaction :: "string \<Rightarrow> string \<Rightarrow> string list \<Rightarrow> current_transaction" where
  "open_transaction d rest post =
     (case post of
        [] \<Rightarrow> start_transaction d rest
      | n # post' \<Rightarrow>
          if findall_amount (strip n) \<noteq> []
          then continue_lines post' (lookahead (strip n) (start_transaction d rest))
          else continue_lines post (start_transaction d rest))"

section \<open>Properties\<close>

subsection \<open>Evaluation of the exclusion search\<close>

lemma lower_patterns:
  "map (map lower) exclude_patterns =
     [''beginning balance'', ''ending balance'', ''important notice'',
      ''member fdic'', ''direct inquiries'', ''accounts offered by'']"
  by (simp add: exclude_patterns_def lower_def)

lemma exclude_regex_code [code]:
  "exclude_regex s =
     list_ex (\<lambda>p. str_contains p (map lower s))
       [''beginning balance'', ''ending balance'', ''important notice'',
        ''member fdic'', ''direct inquiries'', ''accounts offered by'']"
proof -
  have "exclude_regex s =
      list_ex (\<lambda>p. str_contains p (map lower s)) (map (map lower) exclude_patterns)"
    by (simp add: exclude_regex_def list_ex_iff)
  then show ?thesis
    by (simp only: lower_patterns)
qed

subsection \<open>The classifier\<close>

lemma classify_amounts_Nil: "classify_amounts [] t = t"
  by (simp add: classify_amounts_def)

lemma classify_amounts_Cons:
  "classify_amounts (a # as) t = classify_amount (classify_amounts as t) a"
  by (simp add: classify_amounts_def)

lemma classify_amount_balance:
  "balance t = Some b \<Longrightarrow> balance (classify_amount t a) = Some b"
  by (simp add: classify_amount_def)

lemma classify_amounts_balance:
  "balance t = Some b \<Longrightarrow> balance (classify_amounts as t) = Some b"
  by (induction as) (simp_all add: classify_amounts_Nil classify_amounts_Cons classify_amount_balance)

lemma classify_amounts_date: "date (classify_amounts as t) = date t"
  by (induction as) (simp_all add: classify_amounts_Nil classify_amounts_Cons classify_amount_def)

lemma classify_amounts_description: "description (classify_amounts as t) = description t"
  by (induction as) (simp_all add: classify_amounts_Nil classify_amounts_Cons classify_amount_def)

lemma classify_amounts_credits:
  "balance t = Some b \<Longrightarrow>
   credits (classify_amounts as t) =
     (case filter (\<lambda>a. CHR ''('' \<notin> set a) as of [] \<Rightarrow> credits t | c # _ \<Rightarrow> Some c)"
proof (induction as)
  case Nil
  show ?case by (simp add: classify_amounts_Nil)
next
  case (Cons a as)
  have "balance (classify_amounts as t) = Some b"
    using Cons.prems by (rule classify_amounts_balance)
  then show ?case
    using Cons by (simp add: classify_amounts_Cons classify_amount_def)
qed

lemma classify_amounts_debits:
  "balance t = Some b \<Longrightarrow>
   debits (classify_amounts as t) =
     (case filter (\<lambda>a. CHR ''('' \<in> set a) as of [] \<Rightarrow> debits t | d # _ \<Rightarrow> Some d)"
proof (induction as)
  case Nil
  show ?case by (simp add: classify_amounts_Nil)
next
  case (Cons a as)
  have "balance (classify_amounts as t) = Some b"
    using Cons.prems by (rule classify_amounts_balance)
  then show ?case
    using Cons by (simp add: classify_amounts_Cons classify_amount_def)
qed

lemma continuation_balance:
  "balance t = Some b \<Longrightarrow> balance (continuation line t) = Some b"
  by (simp add: continuation_def Let_def classify_amounts_balance)

lemma lookahead_balance:
  "balance t = Some b \<Longrightarrow> balance (lookahead line t) = Some b"
  by (simp add: lookahead_def Let_def classify_amounts_balance)

lemma continuation_credits:
  "balance t = Some b \<Longrightarrow>
   credits (continuation line t) =
     (case filter (\<lambda>a. CHR ''('' \<notin> set a) (findall_amount line) of
        [] \<Rightarrow> credits t | c # _ \<Rightarrow> Some c)"
  by (simp add: continuation_def Let_def classify_amounts_credits split: list.split)

lemma continuation_debits:
  "balance t = Some b \<Longrightarrow>
   debits (continuation line t) =
     (case filter (\<lambda>a. CHR ''('' \<in> set a) (findall_amount line) of
        [] \<Rightarrow> debits t | d # _ \<Rightarrow> Some d)"
  by (simp add: continuation_def Let_def classify_amounts_debits split: list.split)

subsection \<open>The loop\<close>

declare seg_loop.simps [simp del]

lemma seg_loop_end:
  "\<not> i < length lines \<Longrightarrow> seg_loop lines i t data = (t, data)"
  by (subst seg_loop.simps) simp

lemma seg_loop_header:
  "i < length lines \<Longrightarrow> is_header (strip (lines ! i)) \<Longrightarrow>
   seg_loop lines i t data = seg_loop lines (i + 1) t data"
  by (subst seg_loop.simps) simp

lemma seg_loop_date_lookahead:
  "i < length lines \<Longrightarrow> \<not> is_header (strip (lines ! i)) \<Longrightarrow>
   date_match (strip (lines ! i)) = Some (d, rest) \<Longrightarrow>
   i + 1 < length lines \<Longrightarrow> findall_amount (strip (lines ! (i + 1))) \<noteq> [] \<Longrightarrow>
   seg_loop lines i t data =
     seg_loop lines (i + 2) (lookahead (strip (lines ! (i + 1))) (start_transaction d rest))
       (save_previous t data)"
  by (subst seg_loop.simps) simp

lemma seg_loop_date_plain:
  "i < length lines \<Longrightarrow> \<not> is_header (strip (lines ! i)) \<Longrightarrow>
   date_match (strip (lines ! i)) = Some (d, rest) \<Longrightarrow>
   \<not> (i + 1 < length lines \<and> findall_amount (strip (lines ! (i + 1))) \<noteq> []) \<Longrightarrow>
   seg_loop lines i t data =
     seg_loop lines (i + 1) (start_transaction d rest) (save_previous t data)"
  by (subst seg_loop.simps) auto

lemma seg_loop_continuation:
  "i < length lines \<Longrightarrow> \<not> is_header (strip (lines ! i)) \<Longrightarrow>
   date_match (strip (lines ! i)) = None \<Longrightarrow>
   seg_loop lines i t data =
     seg_loop lines (i + 1) (continuation (strip (lines ! i)) t) data"
  by (subst seg_loop.simps) simp

lemma seg_loop_induct [case_names finished header continuation lookahead plain]:
  assumes finished: "\<And>lines i t data. \<not> i < length lines \<Longrightarrow> P lines i t data"
    and header: "\<And>lines i t data. i < length lines \<Longrightarrow> is_header (strip (lines ! i)) \<Longrightarrow>
      P lines (i + 1) t data \<Longrightarrow> P lines i t data"
    and continuation: "\<And>lines i t data. i < length lines \<Longrightarrow>
      \<not> is_header (strip (lines ! i)) \<Longrightarrow> date_match (strip (lines ! i)) = None \<Longrightarrow>
      P lines (i + 1) (continuation (strip (lines ! i)) t) data \<Longrightarrow> P lines i t data"
    and lookahead: "\<And>lines i t data d rest. i < length lines \<Longrightarrow>
      \<not> is_header (strip (lines ! i)) \<Longrightarrow> date_match (strip (lines ! i)) = Some (d, rest) \<Longrightarrow>
      i + 1 < length lines \<Longrightarrow> findall_amount (strip (lines ! (i + 1))) \<noteq> [] \<Longrightarrow>
      P lines (i + 2) (lookahead (strip (lines ! (i + 1))) (start_transaction d rest))
        (save_previous t data) \<Longrightarrow> P lines i t data"
    and plain: "\<And>lines i t data d rest. i < length lines \<Longrightarrow>
      \<not> is_header (strip (lines ! i)) \<Longrightarrow> date_match (strip (lines ! i)) = Some (d, rest) \<Longrightarrow>
      \<not> (i + 1 < length lines \<and> findall_amount (strip (lines ! (i + 1))) \<noteq> []) \<Longrightarrow>
      P lines (i + 1) (start_transaction d rest) (save_previous t data) \<Longrightarrow> P lines i t data"
  shows "P lines i t data"
proof (induction lines i t data rule: seg_loop.induct)
  case (1 lines i t data)
  show ?case
  proof (cases "i < length lines")
    case False
    then show ?thesis by (rule finished)
  next
    case in_range: True
    show ?thesis
    proof (cases "is_header (strip (lines ! i))")
      case True
      from in_range True "1.IH"(1) [OF in_range True] show ?thesis by (rule header)
    next
      case no_header: False
      show ?thesis
      proof (cases "date_match (strip (lines ! i))")
        case None
        from in_range no_header None "1.IH"(2) [OF in_range no_header None]
        show ?thesis by (rule continuation)
      next
        case (Some m)
        obtain d rest where m: "m = (d, rest)" by (cases m)
        show ?thesis
        proof (cases "i + 1 < length lines \<and> findall_amount (strip (lines ! (i + 1))) \<noteq> []")
          case True
          from True have a: "i + 1 < length lines"
            and b: "findall_amount (strip (lines ! (i + 1))) \<noteq> []" by simp_all
          from in_range no_header Some [unfolded m] a b
            "1.IH"(3) [OF in_range no_header Some m [symmetric] True]
          show ?thesis by (rule lookahead)
        next
          case False
          from in_range no_header Some [unfolded m] False
            "1.IH"(4) [OF in_range no_header Some m [symmetric] False]
          show ?thesis by (rule plain)
        qed
      qed
    qed
  qed
qed

lemma date_match_Some: "date_match s = Some m \<Longrightarrow> date_pattern s"
  by (simp add: date_match_def split: if_splits)

lemma date_match_None: "date_match s = None \<Longrightarrow> \<not> date_pattern s"
  by (simp add: date_match_def split: if_splits)

lemma continuation_date: "date (continuation line t) = date t"
  by (simp add: continuation_def Let_def classify_amounts_date)

lemma lookahead_date: "date (lookahead line t) = date t"
  by (simp add: lookahead_def Let_def classify_amounts_date)

lemma save_previous_no_date: "date t = None \<Longrightarrow> save_previous t data = data"
  by (simp add: save_previous_def has_content_def truthy_def)

subsection \<open>Substrings\<close>

lemma starts_with_take: "starts_with s p \<longleftrightarrow> take (length p) s = p"
  by (induction s p rule: starts_with.induct) auto

lemma starts_with_append: "starts_with (p @ s) p"
  by (simp add: starts_with_take)

lemma str_contains_Nil: "str_contains [] s"
  by (cases s) simp_all

lemma str_contains_append: "str_contains m (pre @ m @ post)"
proof (induction pre)
  case Nil
  show ?case
  proof (cases "m @ post")
    case Nil
    then show ?thesis by simp
  next
    case (Cons c cs)
    have "starts_with (m @ post) m" by (rule starts_with_append)
    with Cons show ?thesis by simp
  qed
next
  case (Cons a pre)
  then show ?case by simp
qed

lemma starts_with_extend: "starts_with s p \<Longrightarrow> starts_with (s @ x) p"
  by (induction s p rule: starts_with.induct) auto

lemma str_contains_extend: "str_contains m s \<Longrightarrow> str_contains m (s @ x)"
proof (induction s)
  case Nil
  then show ?case by (simp add: str_contains_Nil)
next
  case (Cons c s)
  then show ?case using starts_with_extend [of "c # s" m x] by auto
qed

lemma take_marker_prefix:
  assumes "pre \<noteq> []"
  shows "take (length m) (pre @ m @ post) = take (length m) (pre @ butlast m)"
proof -
  have k: "length m - length pre < length m \<or> m = []"
    using assms by (cases pre) auto
  show ?thesis
  proof (cases "m = []")
    case True
    then show ?thesis by simp
  next
    case False
    with k have "length m - length pre < length m" by simp
    then have "take (length m - length pre) (butlast m) = take (length m - length pre) m"
      by (simp add: take_butlast)
    then show ?thesis by simp
  qed
qed

lemma split_str_first:
  assumes "m \<noteq> []"
  shows "\<not> str_contains m (pre @ butlast m) \<Longrightarrow>
         split_str m (pre @ m @ post) = pre # split_str m post"
proof (induction pre)
  case Nil
  obtain c m' where m: "m = c # m'" using assms by (cases m) auto
  have "starts_with (m @ post) m" by (rule starts_with_append)
  then show ?case by (simp add: m)
next
  case (Cons a pre)
  from Cons.prems have ns: "\<not> starts_with ((a # pre) @ butlast m) m"
    and nc: "\<not> str_contains m (pre @ butlast m)" by simp_all
  have e: "take (length m) ((a # pre) @ m @ post) = take (length m) ((a # pre) @ butlast m)"
    by (rule take_marker_prefix) simp
  have "\<not> starts_with ((a # pre) @ m @ post) m"
    using ns unfolding starts_with_take e .
  with Cons.IH [OF nc] show ?case by simp
qed

lemma before_notice_first:
  assumes "\<not> str_contains ''Important Notice'' (pre @ butlast ''Important Notice'')"
  shows "before_notice (pre @ ''Important Notice'' @ post) = pre"
proof -
  have "split_str ''Important Notice'' (pre @ ''Important Notice'' @ post) =
      pre # split_str ''Important Notice'' post"
    using assms by (intro split_str_first) simp_all
  then show ?thesis
    by (simp only: before_notice_def list.case)
qed

subsection \<open>The loop between two date lines\<close>

lemma take_drop_step:
  assumes "i < k" and "k \<le> length xs"
  shows "take (k - i) (drop i xs) = xs ! i # take (k - Suc i) (drop (Suc i) xs)"
proof -
  from assms have "drop i xs = xs ! i # drop (Suc i) xs"
    by (simp add: Cons_nth_drop_Suc)
  moreover from assms have "k - i = Suc (k - Suc i)" by simp
  ultimately show ?thesis by simp
qed

lemma seg_loop_until:
  "balance t = Some b \<Longrightarrow> i \<le> k \<Longrightarrow> k \<le> length lines \<Longrightarrow>
   filter date_prefixed (take (k - i) (drop i lines)) = [] \<Longrightarrow>
   \<exists>t'. seg_loop lines i t data = seg_loop lines k t' data \<and> balance t' = Some b \<and>
        date t' = date t"
proof (induction lines i t data rule: seg_loop_induct)
  case (finished lines i t data)
  then have "k = i" by simp
  with finished show ?case by blast
next
  case (header lines i t data)
  show ?case
  proof (cases "i = k")
    case True
    with header.prems show ?thesis by blast
  next
    case False
    with header.prems have ik: "i < k" by simp
    from header.prems(4) have "filter date_prefixed (take (k - (i + 1)) (drop (i + 1) lines)) = []"
      by (simp add: take_drop_step [OF ik header.prems(3)] split: if_splits)
    with header.IH [OF header.prems(1)] ik header.prems(3)
    obtain t' where t': "seg_loop lines (i + 1) t data = seg_loop lines k t' data"
      "balance t' = Some b" "date t' = date t" by auto
    from header.hyps t'(1) have "seg_loop lines i t data = seg_loop lines k t' data"
      by (simp add: seg_loop_header)
    with t'(2,3) show ?thesis by blast
  qed
next
  case (continuation lines i t data)
  show ?case
  proof (cases "i = k")
    case True
    with continuation.prems show ?thesis by blast
  next
    case False
    with continuation.prems have ik: "i < k" by simp
    from continuation.prems(4)
    have "filter date_prefixed (take (k - (i + 1)) (drop (i + 1) lines)) = []"
      by (simp add: take_drop_step [OF ik continuation.prems(3)] split: if_splits)
    moreover have "balance (continuation (strip (lines ! i)) t) = Some b"
      using continuation.prems(1) by (rule continuation_balance)
    ultimately obtain t' where t':
      "seg_loop lines (i + 1) (continuation (strip (lines ! i)) t) data = seg_loop lines k t' data"
      "balance t' = Some b" "date t' = date (continuation (strip (lines ! i)) t)"
      using continuation.IH ik continuation.prems(3) by auto
    from continuation.hyps t'(1) have "seg_loop lines i t data = seg_loop lines k t' data"
      by (simp add: seg_loop_continuation)
    with t'(2,3) show ?thesis by (auto simp: continuation_date)
  qed
next
  case (lookahead lines i t data d rest)
  show ?case
  proof (cases "i = k")
    case True
    with lookahead.prems show ?thesis by blast
  next
    case False
    with lookahead.prems have ik: "i < k" by simp
    from lookahead.hyps(3) have "date_prefixed (lines ! i)"
      by (simp add: date_prefixed_def date_match_Some)
    with lookahead.prems(4) show ?thesis
      by (simp add: take_drop_step [OF ik lookahead.prems(3)])
  qed
next
  case (plain lines i t data d rest)
  show ?case
  proof (cases "i = k")
    case True
    with plain.prems show ?thesis by blast
  next
    case False
    with plain.prems have ik: "i < k" by simp
    from plain.hyps(3) have "date_prefixed (lines ! i)"
      by (simp add: date_prefixed_def date_match_Some)
    with plain.prems(4) show ?thesis
      by (simp add: take_drop_step [OF ik plain.prems(3)])
  qed
qed

subsection \<open>Amounts and white space\<close>



















subsection \<open>What the removal of amounts leaves\<close>

lemma split_amount_nonempty: "split_amount s \<noteq> []"
  by (cases s) (simp_all split: option.splits list.splits)

lemma interleave_Nil2: "interleave gs [] = concat gs"
  by (cases gs) simp_all




lemma length_split_amount: "length (split_amount s) = Suc (length (findall_amount s))"
proof (induction s rule: findall_amount.induct)
  case 1
  show ?case by simp
next
  case (2 c cs)
  show ?case
  proof (cases "amount_pattern (c # cs)")
    case None
    obtain g gs where g: "split_amount cs = g # gs"
      using split_amount_nonempty [of cs] by (cases "split_amount cs") auto
    from "2.IH"(1) [OF None] None g show ?thesis by simp
  next
    case (Some n)
    with "2.IH"(2) [OF Some] show ?thesis by simp
  qed
qed



subsection \<open>The lines of a page hold no notice marker\<close>










subsection \<open>A page with one date line\<close>

lemma continue_lines_date: "date (continue_lines ls t) = date t"
  by (induction ls arbitrary: t) (simp_all add: continuation_date)

lemma seg_loop_between:
  "i \<le> k \<Longrightarrow> k \<le> length lines \<Longrightarrow>
   filter date_prefixed (take (k - i) (drop i lines)) = [] \<Longrightarrow>
   seg_loop lines i t data =
     seg_loop lines k (continue_lines (take (k - i) (drop i lines)) t) data"
proof (induction lines i t data rule: seg_loop_induct)
  case (finished lines i t data)
  then have "k = i" by simp
  then show ?case by simp
next
  case (header lines i t data)
  show ?case
  proof (cases "i = k")
    case True
    then show ?thesis by simp
  next
    case False
    with header.prems have ik: "i < k" by simp
    note step = take_drop_step [OF ik header.prems(2)]
    from header.prems(3) have "filter date_prefixed (take (k - (i + 1)) (drop (i + 1) lines)) = []"
      by (simp add: step split: if_splits)
    with header.IH ik header.prems(2)
    have "seg_loop lines (i + 1) t data =
        seg_loop lines k (continue_lines (take (k - (i + 1)) (drop (i + 1) lines)) t) data"
      by simp
    with header.hyps show ?thesis
      by (simp add: seg_loop_header step)
  qed
next
  case (continuation lines i t data)
  show ?case
  proof (cases "i = k")
    case True
    then show ?thesis by simp
  next
    case False
    with continuation.prems have ik: "i < k" by simp
    note step = take_drop_step [OF ik continuation.prems(2)]
    from continuation.prems(3)
    have "filter date_prefixed (take (k - (i + 1)) (drop (i + 1) lines)) = []"
      by (simp add: step split: if_splits)
    with continuation.IH ik continuation.prems(2)
    have "seg_loop lines (i + 1) (continuation (strip (lines ! i)) t) data =
        seg_loop lines k (continue_lines (take (k - (i + 1)) (drop (i + 1) lines))
          (continuation (strip (lines ! i)) t)) data"
      by simp
    with continuation.hyps show ?thesis
      by (simp add: seg_loop_continuation step)
  qed
next
  case (lookahead lines i t data d rest)
  show ?case
  proof (cases "i = k")
    case True
    then show ?thesis by simp
  next
    case False
    with lookahead.prems have ik: "i < k" by simp
    from lookahead.hyps(3) have "date_prefixed (lines ! i)"
      by (simp add: date_prefixed_def date_match_Some)
    with lookahead.prems(3) show ?thesis
      by (simp add: take_drop_step [OF ik lookahead.prems(2)])
  qed
next
  case (plain lines i t data d rest)
  show ?case
  proof (cases "i = k")
    case True
    then show ?thesis by simp
  next
    case False
    with plain.prems have ik: "i < k" by simp
    from plain.hyps(3) have "date_prefixed (lines ! i)"
      by (simp add: date_prefixed_def date_match_Some)
    with plain.prems(3) show ?thesis
      by (simp add: take_drop_step [OF ik plain.prems(2)])
  qed
qed

lemma seg_loop_tail:
  assumes "i \<le> length lines" and "filter date_prefixed (drop i lines) = []"
  shows "seg_loop lines i t data = (continue_lines (drop i lines) t, data)"
proof -
  have "seg_loop lines i t data =
      seg_loop lines (length lines)
        (continue_lines (take (length lines - i) (drop i lines)) t) data"
    using assms by (intro seg_loop_between) simp_all
  then show ?thesis
    by (simp add: seg_loop_end)
qed

lemma date_match_date: "date_match s = Some (d, rest) \<Longrightarrow> d \<noteq> []"
  by (auto simp: date_match_def date_pattern_def split: if_splits list.splits)

lemma start_transaction_date: "date (start_transaction d rest) = Some d"
  by (simp add: start_transaction_def Let_def)

lemma open_transaction_date: "date (open_transaction d rest post) = Some d"
  by (simp add: open_transaction_def continue_lines_date lookahead_date continuation_date
      start_transaction_date split: list.splits)

lemma one_date_line_state:
  assumes lines: "lines = pre @ dl # post"
    and pre: "filter date_prefixed pre = []" and post: "filter date_prefixed post = []"
    and dl: "date_match (strip dl) = Some (d, rest)"
    and t0: "date t0 = None"
  shows "seg_loop lines 0 t0 data =
    (if is_header (strip dl) then (continue_lines post (continue_lines pre t0), data)
     else (open_transaction d rest post, data))"
proof -
  let ?k = "length pre"
  let ?t1 = "continue_lines pre t0"
  have k: "?k < length lines" and at: "lines ! ?k = dl" and
    dk: "drop (?k + 1) lines = post" and tk: "take ?k lines = pre"
    by (simp_all add: lines)
  have t1: "date ?t1 = None" by (simp add: continue_lines_date t0)
  have "seg_loop lines 0 t0 data =
      seg_loop lines ?k (continue_lines (take (?k - 0) (drop 0 lines)) t0) data"
    using k pre tk by (intro seg_loop_between) simp_all
  then have first: "seg_loop lines 0 t0 data = seg_loop lines ?k ?t1 data"
    by (simp add: tk)
  have tail1: "seg_loop lines (?k + 1) u data = (continue_lines post u, data)" for u
    using seg_loop_tail [of "?k + 1" lines u data] k post dk by simp
  show ?thesis
  proof (cases "is_header (strip dl)")
    case True
    then have "seg_loop lines ?k ?t1 data = seg_loop lines (?k + 1) ?t1 data"
      using k at by (intro seg_loop_header) simp_all
    with first tail1 True show ?thesis by simp
  next
    case False
    have nh: "\<not> is_header (strip (lines ! ?k))" using False at by simp
    have dm: "date_match (strip (lines ! ?k)) = Some (d, rest)" using dl at by simp
    have sp: "save_previous ?t1 data = data" using t1 by (rule save_previous_no_date)
    show ?thesis
    proof (cases post)
      case Nil
      then have "\<not> (?k + 1 < length lines \<and>
          findall_amount (strip (lines ! (?k + 1))) \<noteq> [])"
        by (simp add: lines)
      with k nh dm have "seg_loop lines ?k ?t1 data =
          seg_loop lines (?k + 1) (start_transaction d rest) (save_previous ?t1 data)"
        by (rule seg_loop_date_plain)
      with first tail1 sp False Nil show ?thesis
        by (simp add: open_transaction_def)
    next
      case (Cons n post')
      then have k1: "?k + 1 < length lines" and n: "lines ! (?k + 1) = n"
        and d2: "drop (?k + 2) lines = post'"
        by (simp_all add: lines nth_append)
      show ?thesis
      proof (cases "findall_amount (strip n) \<noteq> []")
        case True
        then have a: "findall_amount (strip (lines ! (?k + 1))) \<noteq> []" using n by simp
        from k nh dm k1 a have "seg_loop lines ?k ?t1 data =
            seg_loop lines (?k + 2) (lookahead (strip (lines ! (?k + 1)))
              (start_transaction d rest)) (save_previous ?t1 data)"
          by (rule seg_loop_date_lookahead)
        moreover have "filter date_prefixed post' = []" using post Cons
          by (simp split: if_splits)
        then have "seg_loop lines (?k + 2) u data = (continue_lines post' u, data)" for u
          using seg_loop_tail [of "?k + 2" lines u data] k1 d2 by simp
        ultimately show ?thesis
          using first sp False Cons True n by (simp add: open_transaction_def)
      next
        case no_amounts: False
        then have "\<not> (?k + 1 < length lines \<and>
            findall_amount (strip (lines ! (?k + 1))) \<noteq> [])"
          using n by simp
        with k nh dm have "seg_loop lines ?k ?t1 data =
            seg_loop lines (?k + 1) (start_transaction d rest) (save_previous ?t1 data)"
          by (rule seg_loop_date_plain)
        with first tail1 sp False Cons no_amounts show ?thesis
          by (simp add: open_transaction_def)
      qed
    qed
  qed
qed

subsection \<open>The rows collected are rows of transactions\<close>








subsection \<open>The table in terms of the pieces between the amounts\<close>


subsection \<open>A page that is one date line\<close>








subsection \<open>Rows with equal dates\<close>

text \<open>
  Any sorted arrangement of the same rows has the same column of dates as the insertion
  sort, and is the same list when no two dates are equal.
\<close>

lemma sorted_by_key_unique_keys:
  fixes out xs :: "table_row list"
  assumes "mset out = mset xs" and "sorted (map fst out)"
  shows "map fst out = map fst (sort_key fst xs)"
proof -
  have "mset (map fst out) = mset (map fst xs)"
    using assms(1) by (metis mset_map)
  with assms(2) have "sort (map fst xs) = map fst out"
    by (intro properties_for_sort) simp_all
  moreover have "sort (map fst xs) = map fst (sort_key fst xs)"
    by (intro properties_for_sort) (simp_all add: sorted_sort_key)
  ultimately show ?thesis by simp
qed

lemma sorted_by_key_distinct:
  fixes out xs :: "table_row list"
  assumes "mset out = mset xs" and "sorted (map fst out)" and "distinct (map fst xs)"
  shows "out = sort_key fst xs"
proof -
  have s: "set out = set xs" using assms(1) by (rule mset_eq_setD)
  have io: "inj_on fst (set xs)" using assms(3) by (simp add: distinct_map)
  have dx: "distinct xs" using assms(3) by (simp add: distinct_map)
  have do: "distinct out" using mset_eq_imp_distinct_iff [OF assms(1)] dx by simp
  have f: "filter (\<lambda>x. fst k = fst x) ys = [k]"
    if "k \<in> set ys" "distinct ys" "inj_on fst (set ys)" for k and ys :: "table_row list"
  proof -
    have "filter (\<lambda>x. fst k = fst x) ys = filter (\<lambda>x. k = x) ys"
      using that by (intro filter_cong) (auto dest: inj_onD)
    also have "\<dots> = [k]" using that(1,2)
      by (induction ys) (auto simp: filter_empty_conv)
    finally show ?thesis .
  qed
  have "sort_key fst xs = out"
  proof (rule properties_for_sort_key)
    show "mset out = mset xs" by (rule assms(1))
    show "sorted (map fst out)" by (rule assms(2))
    fix k assume k: "k \<in> set out"
    have "filter (\<lambda>x. fst k = fst x) out = [k]"
      using k do io s by (intro f) simp_all
    moreover have "filter (\<lambda>x. fst k = fst x) xs = [k]"
      using k dx io s by (intro f) simp_all
    ultimately show "filter (\<lambda>x. fst k = fst x) out = filter (\<lambda>x. fst k = fst x) xs"
      by simp
  qed
  then show ?thesis by simp
qed

section \<open>The claims\<close>

text \<open>
  C1. The claim that every saved transaction has a description free of exclusion
  patterns holds for the transaction saved at the end of a page, not for one saved at
  the next date line: on the page with the lines \<^verbatim>\<open>01/02/2023 Member\<close>, \<^verbatim>\<open>FDIC\<close> and
  \<^verbatim>\<open>01/05/2023 X\<close> the loop saves a row with the description \<^verbatim>\<open>Member FDIC\<close>, which
  matches an exclusion pattern. The same transaction at the end of a page is not saved.
\<close>

theorem midpage_save_skips_exclusion:
  "process_page (join [CHR 0x0A] [''01/02/2023 Member'', ''FDIC'', ''01/05/2023 X'']) [] =
     [\<lparr>Date = ''01/02/2023'', Description = ''Member FDIC'', Credits = None, Debits = None,
       Balance = None\<rparr>,
      \<lparr>Date = ''01/05/2023'', Description = ''X'', Credits = None, Debits = None,
       Balance = None\<rparr>] \<and>
   exclude_regex ''Member FDIC'' \<and>
   process_page (join [CHR 0x0A] [''01/02/2023 Member'', ''FDIC'']) [] = []"
proof -
  have l: "page_lines (join [CHR 0x0A] [''01/02/2023 Member'', ''FDIC'', ''01/05/2023 X'']) =
      [''01/02/2023 Member'', ''FDIC'', ''01/05/2023 X'']"
    by code_simp
  have l2: "page_lines (join [CHR 0x0A] [''01/02/2023 Member'', ''FDIC'']) =
      [''01/02/2023 Member'', ''FDIC'']"
    by code_simp
  have a: "process_page (join [CHR 0x0A] [''01/02/2023 Member'', ''FDIC'', ''01/05/2023 X'']) [] =
     [\<lparr>Date = ''01/02/2023'', Description = ''Member FDIC'', Credits = None, Debits = None,
       Balance = None\<rparr>,
      \<lparr>Date = ''01/05/2023'', Description = ''X'', Credits = None, Debits = None,
       Balance = None\<rparr>]"
    unfolding process_page_def l by code_simp
  have b: "exclude_regex ''Member FDIC''"
    by code_simp
  have c: "process_page (join [CHR 0x0A] [''01/02/2023 Member'', ''FDIC'']) [] = []"
    unfolding process_page_def l2 by code_simp
  from a b c show ?thesis by (intro conjI)
qed

text \<open>
  C2. A line that carries the amounts \<^verbatim>\<open>$10.00\<close>, \<^verbatim>\<open>($5.00)\<close> and \<^verbatim>\<open>$100.00\<close> in this
  order yields exactly these three tokens, and classifying them for a transaction with
  no slot assigned takes them from the right: the balance is \<^verbatim>\<open>$100.00\<close>, the debits
  are \<^verbatim>\<open>($5.00)\<close> and the credits are \<^verbatim>\<open>$10.00\<close>.
\<close>

theorem reverse_classification:
  assumes "credits t = None" and "debits t = None" and "balance t = None"
  shows "findall_amount ''$10.00 ($5.00) $100.00'' = [''$10.00'', ''($5.00)'', ''$100.00''] \<and>
         classify_amounts [''$10.00'', ''($5.00)'', ''$100.00''] t =
           t\<lparr>credits := Some ''$10.00'', debits := Some ''($5.00)'', balance := Some ''$100.00''\<rparr>"
proof
  show "findall_amount ''$10.00 ($5.00) $100.00'' = [''$10.00'', ''($5.00)'', ''$100.00'']"
    by code_simp
  show "classify_amounts [''$10.00'', ''($5.00)'', ''$100.00''] t =
           t\<lparr>credits := Some ''$10.00'', debits := Some ''($5.00)'', balance := Some ''$100.00''\<rparr>"
    using assms by (simp add: classify_amounts_def classify_amount_def)
qed

theorem reverse_classification_witness:
  "classify_amounts [''$10.00'', ''($5.00)'', ''$100.00''] empty_transaction =
     \<lparr>date = None, description = [], credits = Some ''$10.00'', debits = Some ''($5.00)'',
      balance = Some ''$100.00''\<rparr>"
proof -
  have "classify_amounts [''$10.00'', ''($5.00)'', ''$100.00''] empty_transaction =
          empty_transaction\<lparr>credits := Some ''$10.00'', debits := Some ''($5.00)'',
            balance := Some ''$100.00''\<rparr>"
    by (rule conjunct2 [OF reverse_classification]) (simp_all add: empty_transaction_def)
  then show ?thesis
    by (simp add: empty_transaction_def)
qed

text \<open>
  C3. A page with the lines \<^verbatim>\<open>01/02/2023 COFFEE SHOP\<close>, \<^verbatim>\<open>$4.50 $1,200.00\<close> and
  \<^verbatim>\<open>01/05/2023 PAYROLL DEPOSIT\<close> gives a table of exactly two rows; the second
  transaction has no amount, and its three amount fields are empty strings.
\<close>

theorem scenario_two_transactions:
  "extract_transactions_from_pdf
     [(''statement.pdf'',
       [join [CHR 0x0A]
          [''01/02/2023 COFFEE SHOP'', ''$4.50 $1,200.00'', ''01/05/2023 PAYROLL DEPOSIT'']])] =
   [(''01/02/2023'', ''COFFEE SHOP'', ''$4.50'', '''', ''$1,200.00''),
    (''01/05/2023'', ''PAYROLL DEPOSIT'', '''', '''', '''')]"
proof -
  let ?c = "join [CHR 0x0A]
          [''01/02/2023 COFFEE SHOP'', ''$4.50 $1,200.00'', ''01/05/2023 PAYROLL DEPOSIT'']"
  let ?r1 = "\<lparr>Date = ''01/02/2023'', Description = ''COFFEE SHOP'', Credits = Some ''$4.50'',
    Debits = None, Balance = Some ''$1,200.00''\<rparr>"
  let ?r2 = "\<lparr>Date = ''01/05/2023'', Description = ''PAYROLL DEPOSIT'', Credits = None,
    Debits = None, Balance = None\<rparr>"
  have l: "page_lines ?c =
      [''01/02/2023 COFFEE SHOP'', ''$4.50 $1,200.00'', ''01/05/2023 PAYROLL DEPOSIT'']"
    by code_simp
  have pg: "process_page ?c [] = [?r1, ?r2]"
    unfolding process_page_def l by code_simp
  have e: "ends_with ''statement.pdf'' ''.pdf''"
    by code_simp
  have f: "process_folder [(''statement.pdf'', [?c])] = [?r1, ?r2]"
    by (simp only: process_folder_def process_file_def foldl.simps prod.case e if_True pg)
  have d: "data_frame [?r1, ?r2] =
     [(''01/02/2023'', ''COFFEE SHOP'', ''$4.50'', '''', ''$1,200.00''),
      (''01/05/2023'', ''PAYROLL DEPOSIT'', '''', '''', '''')]"
    by code_simp
  show ?thesis
    unfolding extract_transactions_from_pdf_def f d ..
qed

theorem scenario_two_transactions_witness:
  "length (extract_transactions_from_pdf
     [(''statement.pdf'',
       [join [CHR 0x0A]
          [''01/02/2023 COFFEE SHOP'', ''$4.50 $1,200.00'', ''01/05/2023 PAYROLL DEPOSIT'']])]) = 2"
  unfolding scenario_two_transactions by simp

text \<open>
  C4. When the balance slot is set and two lines of the same transaction carry amounts,
  the credits slot after the second line is the credit that the second line wrote last
  (its leftmost token without an opening parenthesis), whatever the first line wrote;
  likewise for the debits slot and the tokens with an opening parenthesis.
\<close>

theorem last_write_wins:
  assumes "balance t = Some b"
  shows "(filter (\<lambda>a. CHR ''('' \<notin> set a) (findall_amount line2) = c # cs \<longrightarrow>
            credits (continuation line2 (continuation line1 t)) = Some c) \<and>
         (filter (\<lambda>a. CHR ''('' \<in> set a) (findall_amount line2) = d # ds \<longrightarrow>
            debits (continuation line2 (continuation line1 t)) = Some d)"
proof -
  have b1: "balance (continuation line1 t) = Some b"
    using assms by (rule continuation_balance)
  show ?thesis
    by (simp add: continuation_credits [OF b1] continuation_debits [OF b1])
qed

theorem last_write_wins_witness:
  "credits (continuation ''$7.00 ($3.00)''
      (continuation ''$5.00 ($1.00)''
         (empty_transaction\<lparr>balance := Some ''$100.00''\<rparr>))) = Some ''$7.00'' \<and>
   debits (continuation ''$7.00 ($3.00)''
      (continuation ''$5.00 ($1.00)''
         (empty_transaction\<lparr>balance := Some ''$100.00''\<rparr>))) = Some ''($3.00)''"
proof -
  have b: "balance (empty_transaction\<lparr>balance := Some ''$100.00''\<rparr>) = Some ''$100.00''"
    by simp
  have c: "filter (\<lambda>a. CHR ''('' \<notin> set a) (findall_amount ''$7.00 ($3.00)'') = [''$7.00'']"
    by code_simp
  have d: "filter (\<lambda>a. CHR ''('' \<in> set a) (findall_amount ''$7.00 ($3.00)'') = [''($3.00)'']"
    by code_simp
  from last_write_wins [OF b, of "''$7.00 ($3.00)''" "''$7.00''" "[]" "''$5.00 ($1.00)''"
      "''($3.00)''" "[]"] c d
  show ?thesis by blast
qed

text \<open>
  C5. The rows of the table are in ascending order of the date column, compared as
  strings: the list of the dates is sorted in the lexicographic order of strings. So a
  row dated \<^verbatim>\<open>01/05/2024\<close> comes before a row dated \<^verbatim>\<open>12/31/2023\<close>, also when the
  pages give them in the other order.
\<close>

theorem sorted_by_date_string:
  "sorted (map fst (extract_transactions_from_pdf files)) \<and>
   extract_transactions_from_pdf
     [(''statement.pdf'', [''12/31/2023 YEAR END'', ''01/05/2024 NEW YEAR''])] =
   [(''01/05/2024'', ''NEW YEAR'', '''', '''', ''''),
    (''12/31/2023'', ''YEAR END'', '''', '''', '''')]"
proof
  show "sorted (map fst (extract_transactions_from_pdf files))"
    by (simp add: extract_transactions_from_pdf_def data_frame_def sorted_sort_key)
next
  let ?r1 = "\<lparr>Date = ''12/31/2023'', Description = ''YEAR END'', Credits = None,
    Debits = None, Balance = None\<rparr>"
  let ?r2 = "\<lparr>Date = ''01/05/2024'', Description = ''NEW YEAR'', Credits = None,
    Debits = None, Balance = None\<rparr>"
  have pg1: "process_page ''12/31/2023 YEAR END'' [] = [?r1]"
    by code_simp
  have pg2: "process_page ''01/05/2024 NEW YEAR'' [?r1] = [?r1, ?r2]"
    by code_simp
  have e: "ends_with ''statement.pdf'' ''.pdf''"
    by code_simp
  have f: "process_folder [(''statement.pdf'', [''12/31/2023 YEAR END'', ''01/05/2024 NEW YEAR''])] =
      [?r1, ?r2]"
    by (simp only: process_folder_def process_file_def foldl.simps prod.case e if_True pg1 pg2)
  have d: "data_frame [?r1, ?r2] =
     [(''01/05/2024'', ''NEW YEAR'', '''', '''', ''''),
      (''12/31/2023'', ''YEAR END'', '''', '''', '''')]"
    by code_simp
  show "extract_transactions_from_pdf
     [(''statement.pdf'', [''12/31/2023 YEAR END'', ''01/05/2024 NEW YEAR''])] =
   [(''01/05/2024'', ''NEW YEAR'', '''', '''', ''''),
    (''12/31/2023'', ''YEAR END'', '''', '''', '''')]"
    unfolding extract_transactions_from_pdf_def f d ..
qed

theorem sorted_by_date_string_witness:
  "sorted [''01/05/2024'', ''12/31/2023'']"
proof -
  have "sorted (map fst (extract_transactions_from_pdf
     [(''statement.pdf'', [''12/31/2023 YEAR END'', ''01/05/2024 NEW YEAR''])]))"
    by (rule conjunct1 [OF sorted_by_date_string])
  then show ?thesis
    unfolding conjunct2 [OF sorted_by_date_string] by simp
qed

text \<open>
  C6. When the text of a page contains the notice marker, with its first occurrence right
  after \<open>pre\<close>, the lines of the page and the rows it adds are those of \<open>pre\<close> alone:
  nothing that stands at or after the marker is used, whatever it is.
\<close>

theorem truncation_at_notice:
  assumes "\<not> str_contains ''Important Notice'' (pre @ butlast ''Important Notice'')"
  shows "page_lines (pre @ ''Important Notice'' @ post) = page_lines pre \<and>
         process_page (pre @ ''Important Notice'' @ post) data = process_page pre data"
proof -
  have a: "\<not> str_contains ''Important Notice'' pre"
    using assms str_contains_extend by blast
  have b: "str_contains ''Important Notice'' (pre @ ''Important Notice'' @ post)"
    by (rule str_contains_append)
  have c: "before_notice (pre @ ''Important Notice'' @ post) = pre"
    using assms by (rule before_notice_first)
  have "page_lines (pre @ ''Important Notice'' @ post) = page_lines pre"
    unfolding page_lines_def Let_def if_P [OF b] if_not_P [OF a] c ..
  then show ?thesis
    by (simp only: process_page_def)
qed

theorem truncation_at_notice_witness:
  "process_page (''01/02/2023 A '' @ ''Important Notice'' @ CHR 0x0A # ''01/05/2023 B'') [] =
     [\<lparr>Date = ''01/02/2023'', Description = ''A'', Credits = None, Debits = None,
       Balance = None\<rparr>]"
proof -
  have h: "\<not> str_contains ''Important Notice'' (''01/02/2023 A '' @ butlast ''Important Notice'')"
    by code_simp
  have r: "process_page ''01/02/2023 A '' [] =
     [\<lparr>Date = ''01/02/2023'', Description = ''A'', Credits = None, Debits = None,
       Balance = None\<rparr>]"
    by code_simp
  have "process_page (''01/02/2023 A '' @ ''Important Notice'' @ CHR 0x0A # ''01/05/2023 B'') [] =
      process_page ''01/02/2023 A '' []"
    by (rule conjunct2 [OF truncation_at_notice [OF h]])
  then show ?thesis
    unfolding r .
qed







text \<open>
  C9, amended. Let the lines of a page hold exactly one date-prefixed line \<open>dl\<close>, with
  the lines \<open>pre\<close> before it and \<open>post\<close> after it. When \<open>dl\<close> is skipped as a header
  line, the page adds no row. Otherwise \<open>dl\<close> opens a transaction with its date, the
  lines before it have no effect, and the page adds exactly one row, with this date, or
  none if and only if the transaction built from \<open>dl\<close> and the lines after it has
  neither description nor credits nor debits, or its description matches an exclusion
  pattern.
\<close>

theorem one_date_line_one_transaction:
  assumes "page_lines content = pre @ dl # post"
    and "filter date_prefixed pre = []" and "filter date_prefixed post = []"
    and "date_match (strip dl) = Some (d, rest)"
  shows "(is_header (strip dl) \<longrightarrow> process_page content data = data) \<and>
         (\<not> is_header (strip dl) \<longrightarrow>
            date (open_transaction d rest post) = Some d \<and>
            process_page content data =
              (if (description (open_transaction d rest post) \<noteq> [] \<or>
                   truthy (credits (open_transaction d rest post)) \<or>
                   truthy (debits (open_transaction d rest post))) \<and>
                  \<not> exclude_regex
                      (strip (join '' '' (description (open_transaction d rest post))))
               then data @
                 [\<lparr>Date = d,
                   Description = strip (join '' '' (description (open_transaction d rest post))),
                   Credits = credits (open_transaction d rest post),
                   Debits = debits (open_transaction d rest post),
                   Balance = balance (open_transaction d rest post)\<rparr>]
               else data))"
proof -
  have e: "date empty_transaction = None" by (simp add: empty_transaction_def)
  note s = one_date_line_state [OF assms e, of data]
  have dn: "d \<noteq> []" using assms(4) by (rule date_match_date)
  show ?thesis
  proof (intro conjI impI)
    assume h: "is_header (strip dl)"
    have "date (continue_lines post (continue_lines pre empty_transaction)) = None"
      by (simp add: continue_lines_date e)
    then have "save_last (continue_lines post (continue_lines pre empty_transaction)) data = data"
      by (simp add: save_last_def has_content_def truthy_def)
    with s h show "process_page content data = data"
      by (simp add: process_page_def)
  next
    show "date (open_transaction d rest post) = Some d"
      by (rule open_transaction_date)
  next
    assume h: "\<not> is_header (strip dl)"
    let ?T = "open_transaction d rest post"
    from s h have "process_page content data = save_last ?T data"
      by (simp add: process_page_def)
    then show "process_page content data =
        (if (description ?T \<noteq> [] \<or> truthy (credits ?T) \<or> truthy (debits ?T)) \<and>
            \<not> exclude_regex (strip (join '' '' (description ?T)))
         then data @
           [\<lparr>Date = d, Description = strip (join '' '' (description ?T)),
             Credits = credits ?T, Debits = debits ?T, Balance = balance ?T\<rparr>]
         else data)"
      using dn by (simp add: save_last_def has_content_def truthy_def row_of_def
          open_transaction_date)
  qed
qed

theorem one_date_line_one_transaction_witness:
  "process_page (join [CHR 0x0A] [''01/02/2023 COFFEE SHOP'', ''$4.50 $1,200.00'']) [] =
     [\<lparr>Date = ''01/02/2023'', Description = ''COFFEE SHOP'', Credits = Some ''$4.50'',
       Debits = None, Balance = Some ''$1,200.00''\<rparr>] \<and>
   process_page (join [CHR 0x0A] [''01/02/2023 Balance Transfer'', ''($25.00) $975.00'']) [] = []"
proof
  let ?c = "join [CHR 0x0A] [''01/02/2023 COFFEE SHOP'', ''$4.50 $1,200.00'']"
  let ?T = "\<lparr>date = Some ''01/02/2023'', description = [''COFFEE SHOP''],
    credits = Some ''$4.50'', debits = None, balance = Some ''$1,200.00''\<rparr>"
  have l: "page_lines ?c = [] @ ''01/02/2023 COFFEE SHOP'' # [''$4.50 $1,200.00'']"
    by code_simp
  have p1: "filter date_prefixed [] = []" by simp
  have p2: "filter date_prefixed [''$4.50 $1,200.00''] = []" by code_simp
  have m: "date_match (strip ''01/02/2023 COFFEE SHOP'') = Some (''01/02/2023'', ''COFFEE SHOP'')"
    by code_simp
  have nh: "\<not> is_header (strip ''01/02/2023 COFFEE SHOP'')" by code_simp
  have T: "open_transaction ''01/02/2023'' ''COFFEE SHOP'' [''$4.50 $1,200.00''] = ?T"
    by code_simp
  have c: "(description ?T \<noteq> [] \<or> truthy (credits ?T) \<or> truthy (debits ?T)) \<and>
      \<not> exclude_regex (strip (join '' '' (description ?T)))" by code_simp
  have s: "strip (join '' '' (description ?T)) = ''COFFEE SHOP''" by code_simp
  from one_date_line_one_transaction [OF l p1 p2 m, of "[]", THEN conjunct2, THEN mp, OF nh,
      THEN conjunct2, unfolded T]
  have step: "process_page ?c [] =
      (if (description ?T \<noteq> [] \<or> truthy (credits ?T) \<or> truthy (debits ?T)) \<and>
          \<not> exclude_regex (strip (join '' '' (description ?T)))
       then [] @ [\<lparr>Date = ''01/02/2023'', Description = strip (join '' '' (description ?T)),
                  Credits = credits ?T, Debits = debits ?T, Balance = balance ?T\<rparr>]
       else [])" .
  show "process_page ?c [] =
     [\<lparr>Date = ''01/02/2023'', Description = ''COFFEE SHOP'', Credits = Some ''$4.50'',
       Debits = None, Balance = Some ''$1,200.00''\<rparr>]"
    using step c s by simp
next
  let ?c = "join [CHR 0x0A] [''01/02/2023 Balance Transfer'', ''($25.00) $975.00'']"
  have l: "page_lines ?c = [] @ ''01/02/2023 Balance Transfer'' # [''($25.00) $975.00'']"
    by code_simp
  have p1: "filter date_prefixed [] = []" by simp
  have p2: "filter date_prefixed [''($25.00) $975.00''] = []" by code_simp
  have m: "date_match (strip ''01/02/2023 Balance Transfer'') =
      Some (''01/02/2023'', ''Balance Transfer'')" by code_simp
  have h: "is_header (strip ''01/02/2023 Balance Transfer'')" by code_simp
  from one_date_line_one_transaction [OF l p1 p2 m, of "[]", THEN conjunct1, THEN mp, OF h]
  show "process_page ?c [] = []" .
qed

text \<open>
  C9 as stated fails when the date-prefixed line is skipped as a header: on the page
  with the lines \<^verbatim>\<open>01/02/2023 Balance Transfer\<close> and \<^verbatim>\<open>($25.00) $975.00\<close> one line
  is date-prefixed, the transaction in hand at the end of the page has its debits set
  and a description that matches no exclusion pattern, and yet no row is added.
\<close>

theorem header_date_line_emits_nothing:
  "page_lines (join [CHR 0x0A] [''01/02/2023 Balance Transfer'', ''($25.00) $975.00'']) =
     [''01/02/2023 Balance Transfer'', ''($25.00) $975.00''] \<and>
   filter date_prefixed [''01/02/2023 Balance Transfer'', ''($25.00) $975.00''] =
     [''01/02/2023 Balance Transfer''] \<and>
   fst (seg_loop [''01/02/2023 Balance Transfer'', ''($25.00) $975.00''] 0
          empty_transaction []) =
     \<lparr>date = None, description = [], credits = None, debits = Some ''($25.00)'',
      balance = Some ''$975.00''\<rparr> \<and>
   truthy (Some ''($25.00)'') \<and>
   \<not> exclude_regex (strip (join '' '' [])) \<and>
   process_page (join [CHR 0x0A] [''01/02/2023 Balance Transfer'', ''($25.00) $975.00'']) [] = []"
proof -
  let ?c = "join [CHR 0x0A] [''01/02/2023 Balance Transfer'', ''($25.00) $975.00'']"
  let ?lines = "[''01/02/2023 Balance Transfer'', ''($25.00) $975.00'']"
  have a: "page_lines ?c = ?lines" by code_simp
  have b: "filter date_prefixed ?lines = [''01/02/2023 Balance Transfer'']" by code_simp
  have c: "fst (seg_loop ?lines 0 empty_transaction []) =
     \<lparr>date = None, description = [], credits = None, debits = Some ''($25.00)'',
      balance = Some ''$975.00''\<rparr>" by code_simp
  have d: "truthy (Some ''($25.00)'')" by code_simp
  have e: "\<not> exclude_regex (strip (join '' '' []))" by code_simp
  have f: "process_page ?c [] = []"
    unfolding process_page_def a by code_simp
  from a b c d e f show ?thesis by (intro conjI)
qed

text \<open>
  C10. Once the balance slot of a transaction holds a value, no amount processed later
  for this transaction changes it: neither the classifier loop, nor a continuation line,
  nor the line after a date line. Running the loop from line \<open>i\<close> up to line \<open>k\<close>, the
  next date-prefixed line or the end of the page, the transaction still has this
  balance, and so has the row that is saved for it.
\<close>

theorem balance_kept_until_finalization:
  assumes "balance t = Some b" and "i \<le> k" and "k \<le> length lines"
    and "filter date_prefixed (take (k - i) (drop i lines)) = []"
  shows "balance (classify_amounts amounts t) = Some b \<and>
         balance (continuation line t) = Some b \<and>
         balance (lookahead line t) = Some b \<and>
         (\<exists>t'. seg_loop lines i t data = seg_loop lines k t' data \<and>
               balance t' = Some b \<and> date t' = date t \<and> Balance (row_of t') = Some b)"
proof -
  from seg_loop_until [OF assms]
  obtain t' where "seg_loop lines i t data = seg_loop lines k t' data" "balance t' = Some b"
    "date t' = date t" by blast
  moreover from this have "Balance (row_of t') = Some b" by (simp add: row_of_def)
  ultimately have "\<exists>t'. seg_loop lines i t data = seg_loop lines k t' data \<and>
               balance t' = Some b \<and> date t' = date t \<and> Balance (row_of t') = Some b"
    by blast
  with assms(1) show ?thesis
    by (simp add: classify_amounts_balance continuation_balance lookahead_balance)
qed

theorem balance_kept_until_finalization_witness:
  "balance (continuation ''($1.00) $2.00''
      \<lparr>date = Some ''01/02/2023'', description = [''COFFEE''], credits = Some ''$4.50'',
       debits = None, balance = Some ''$100.00''\<rparr>) = Some ''$100.00'' \<and>
   (\<exists>t'. seg_loop [''01/02/2023 COFFEE'', ''$4.50 $100.00'', ''($1.00) $2.00'', ''01/05/2023 X''] 2
            \<lparr>date = Some ''01/02/2023'', description = [''COFFEE''], credits = Some ''$4.50'',
             debits = None, balance = Some ''$100.00''\<rparr> [] =
         seg_loop [''01/02/2023 COFFEE'', ''$4.50 $100.00'', ''($1.00) $2.00'', ''01/05/2023 X''] 3
            t' [] \<and>
         balance t' = Some ''$100.00'' \<and> Balance (row_of t') = Some ''$100.00'')"
proof -
  let ?lines = "[''01/02/2023 COFFEE'', ''$4.50 $100.00'', ''($1.00) $2.00'', ''01/05/2023 X'']"
  let ?t = "\<lparr>date = Some ''01/02/2023'', description = [''COFFEE''], credits = Some ''$4.50'',
       debits = None, balance = Some ''$100.00''\<rparr>"
  have b: "balance ?t = Some ''$100.00''" by simp
  have ik: "(2::nat) \<le> 3" by simp
  have kl: "3 \<le> length ?lines" by simp
  have nd: "filter date_prefixed (take (3 - 2) (drop 2 ?lines)) = []"
    by code_simp
  from balance_kept_until_finalization [OF b ik kl nd, where line = "''($1.00) $2.00''" and data = "[]"]
  show ?thesis by blast
qed

end
